theory Spec2Isabelle
  imports Complex_Main "HOL-Library.Char_ord" "HOL-Library.List_Lexorder"
    "HOL-Library.Product_Lexorder"
begin

section \<open>Rank-based election simulation (Script/utils.py)\<close>

text \<open>
  The program works on a pandas DataFrame with one row per pair of a party and a
  next-best party. The table is a list of rows, in the DataFrame's row order. A numeric
  cell is a float64: it is either the missing value NaN or a number. A number cell holds
  the exact value of the float, a rational, and the arithmetic of the model is exact: it
  is the arithmetic of the program where no float64 operation rounds or overflows. A
  property that depends on the exact value of a computed sum or product is therefore
  stated for amounts on which the float64 operations are exact (\<open>exact_amounts\<close> below).
  NaN is kept, since pandas arithmetic, comparisons, sorting and aggregation treat it
  specially and the program produces it.
\<close>

subsection \<open>Numeric cells\<close>

datatype val = NaN | Num rat

fun vadd :: "val \<Rightarrow> val \<Rightarrow> val" where
  "vadd (Num a) (Num b) = Num (a + b)"
| "vadd _ _ = NaN"

fun vmul :: "val \<Rightarrow> val \<Rightarrow> val" where
  "vmul (Num a) (Num b) = Num (a * b)"
| "vmul _ _ = NaN"

text \<open>A comparison with NaN is false.\<close>

fun vlt :: "val \<Rightarrow> rat \<Rightarrow> bool" where
  "vlt (Num a) b = (a < b)"
| "vlt NaN b = False"

text \<open>The non-missing entries of a column, in order.\<close>

fun nums :: "val list \<Rightarrow> rat list" where
  "nums [] = []"
| "nums (NaN # vs) = nums vs"
| "nums (Num a # vs) = a # nums vs"

text \<open>
  Group aggregations skip NaN: \<open>max\<close> and \<open>mean\<close> of a group with no number are NaN,
  \<open>sum\<close> of such a group is 0.
\<close>

definition col_max :: "val list \<Rightarrow> val" where
  "col_max vs = (case nums vs of [] \<Rightarrow> NaN | a # as \<Rightarrow> Num (fold max as a))"

definition col_mean :: "val list \<Rightarrow> val" where
  "col_mean vs =
     (case nums vs of [] \<Rightarrow> NaN | a # as \<Rightarrow> Num (sum_list (a # as) / of_nat (length (a # as))))"

definition col_sum :: "val list \<Rightarrow> val" where
  "col_sum vs = Num (sum_list (nums vs))"

text \<open>
  \<open>sort_values(..., ascending=False)\<close> orders by decreasing value and puts NaN last.
  The order of equal values is the one of a stable sort (what pandas' reverse, argsort,
  reverse gives on the short columns of this program). The sort key below is increasing
  exactly when the value comes later in that order.
\<close>

definition desc_key :: "val \<Rightarrow> nat \<times> rat" where
  "desc_key v = (case v of NaN \<Rightarrow> (1, 0) | Num a \<Rightarrow> (0, - a))"

subsection \<open>The preference table\<close>

record row =
  best_party :: string
  current_votes :: val
  next_best_party :: string
  redistribution_share :: val
  initial_votes :: val
  redistributed_votes :: val

type_synonym table = "row list"

datatype error = IndexError | KeyError string

text \<open>\<open>groupby('best_party')\<close>: the distinct keys, sorted.\<close>

definition parties :: "table \<Rightarrow> string list" where
  "parties data = sort (remdups (map best_party data))"

definition group :: "table \<Rightarrow> string \<Rightarrow> table" where
  "group data p = filter (\<lambda>r. best_party r = p) data"

subsection \<open>current_results\<close>

record standing =
  st_best_party :: string
  st_current_votes :: val
  st_redistributed_votes :: val

definition current_results :: "table \<Rightarrow> standing list" where
  "current_results data =
     sort_key (\<lambda>s. desc_key (st_current_votes s))
       (map (\<lambda>p. \<lparr>st_best_party = p,
                   st_current_votes = col_max (map current_votes (group data p)),
                   st_redistributed_votes = col_max (map redistributed_votes (group data p))\<rparr>)
          (parties data))"

subsection \<open>bottom_party_name\<close>

text \<open>\<open>.query('current_votes != 0')\<close> keeps NaN; \<open>.iloc[-1]\<close> raises on an empty frame.\<close>

definition bottom_party_name :: "table \<Rightarrow> error + string" where
  "bottom_party_name data =
     (case filter (\<lambda>s. st_current_votes s \<noteq> Num 0) (current_results data) of
        [] \<Rightarrow> Inl IndexError
      | s # ss \<Rightarrow> Inr (st_best_party (last (s # ss))))"

subsection \<open>top_party_votes_share\<close>

definition top_party_votes_share :: "table \<Rightarrow> error + val" where
  "top_party_votes_share data =
     (case sort_key (\<lambda>s. desc_key (st_current_votes s))
             (map (\<lambda>s. s\<lparr>st_current_votes :=
                            vadd (st_current_votes s) (st_redistributed_votes s)\<rparr>)
                (current_results data)) of
        [] \<Rightarrow> Inl IndexError
      | s # ss \<Rightarrow> Inr (st_current_votes s))"

subsection \<open>redistribute_bottom_points\<close>

text \<open>
  The frame \<open>points_to_redistribute\<close> has two columns: the next-best party of each row
  of the bottom party, renamed to \<open>best_party\<close>, and the points it receives.
\<close>

definition points_to_redistribute :: "table \<Rightarrow> string \<Rightarrow> (string \<times> val) list" where
  "points_to_redistribute data bottom_party =
     map (\<lambda>r. (next_best_party r, vmul (initial_votes r) (redistribution_share r)))
       (group data bottom_party)"

text \<open>
  \<open>data.merge(points, how='left')\<close> joins on the one common column, \<open>best_party\<close>:
  every row of \<open>data\<close>, in order, once per matching row of \<open>points\<close>, and once with a
  missing value when nothing matches.
\<close>

definition merge_left :: "table \<Rightarrow> (string \<times> val) list \<Rightarrow> (row \<times> val) list" where
  "merge_left data points =
     concat (map (\<lambda>r. case filter (\<lambda>kv. fst kv = best_party r) points of
                          [] \<Rightarrow> [(r, NaN)]
                        | m # ms \<Rightarrow> map (\<lambda>kv. (r, snd kv)) (m # ms)) data)"

text \<open>
  The function prints which party is redistributed and the leading share; the printed
  notice is returned with the new table (the rounding of the share for display is left
  out).
\<close>

type_synonym notice = "string \<times> val"

definition redistribute_bottom_points :: "table \<Rightarrow> error + (table \<times> notice)" where
  "redistribute_bottom_points data =
     (case bottom_party_name data of
        Inl e \<Rightarrow> Inl e
      | Inr bottom_party \<Rightarrow>
         (case top_party_votes_share data of
            Inl e \<Rightarrow> Inl e
          | Inr top_vote_share \<Rightarrow>
             Inr (map (\<lambda>r. if best_party r = bottom_party
                            then r\<lparr>current_votes := Num 0\<rparr> else r)
                    (map (\<lambda>(r, pts). r\<lparr>redistributed_votes :=
                                          vadd (redistributed_votes r) pts\<rparr>)
                       (merge_left data (points_to_redistribute data bottom_party))),
                  (bottom_party, top_vote_share))))"

subsection \<open>simulateRankBasedElection\<close>

text \<open>
  The diehard votes: per party, the sum of \<open>initial_votes * redistribution_share\<close> over
  its rows whose next-best party is one of the two "no second preference" markers. Only
  parties with such a row get an entry.
\<close>

definition diehard_votes :: "table \<Rightarrow> (string \<times> val) list" where
  "diehard_votes data =
     (let rows = filter (\<lambda>r. next_best_party r = ''inget parti''
                              \<or> next_best_party r = ''vet ej/uppgift saknas'') data
      in map (\<lambda>p. (p, col_sum (map (\<lambda>r. vmul (initial_votes r) (redistribution_share r))
                                  (group rows p))))
           (parties rows))"

text \<open>
  The redistribution loop. \<open>loop_count\<close> starts at 1 and the bound
  \<open>len(current_results(data))\<close> is read again in every iteration. The loop ends by an
  exception when the leading share or a round raises. Besides the outcome and the final
  \<open>loop_count\<close>, the result carries what the rounds printed, in order, and the number
  of calls of \<open>redistribute_bottom_points\<close> that were made (a counter that the program
  does not have, kept for stating how often the function runs).
\<close>

record run =
  outcome :: "error + table"
  loop_count :: nat
  printed :: "notice list"
  calls :: nat

lemma parties_set: "parties data = sorted_list_of_set (best_party ` set data)"
  by (simp add: parties_def sorted_list_of_set_sort_remdups [symmetric])

lemma length_current_results: "length (current_results data) = card (best_party ` set data)"
  by (simp add: current_results_def parties_set)

lemma merge_left_parties:
  "(\<lambda>x. best_party (fst x)) ` set (merge_left data points) = best_party ` set data"
  by (induction data) (auto simp: merge_left_def split: list.splits)

lemma redistribute_unfold:
  assumes "redistribute_bottom_points data = Inr (data', msg)"
  obtains share where "bottom_party_name data = Inr (fst msg)"
    and "top_party_votes_share data = Inr share"
    and "data' = map (\<lambda>r. if best_party r = fst msg then r\<lparr>current_votes := Num 0\<rparr> else r)
                   (map (\<lambda>(r, pts). r\<lparr>redistributed_votes := vadd (redistributed_votes r) pts\<rparr>)
                      (merge_left data (points_to_redistribute data (fst msg))))"
  using assms by (auto simp: redistribute_bottom_points_def split: sum.splits)

lemma redistribute_parties:
  assumes "redistribute_bottom_points data = Inr (data', msg)"
  shows "best_party ` set data' = best_party ` set data"
proof -
  let ?m = "merge_left data (points_to_redistribute data (fst msg))"
  from assms have "map best_party data' = map (\<lambda>x. best_party (fst x)) ?m"
    by (elim redistribute_unfold) (simp add: comp_def case_prod_beta)
  then have "set (map best_party data') = set (map (\<lambda>x. best_party (fst x)) ?m)"
    by simp
  then show ?thesis
    by (simp add: merge_left_parties)
qed

function while_loop :: "table \<Rightarrow> nat \<Rightarrow> run" where
  "while_loop data lc =
     (case top_party_votes_share data of
        Inl e \<Rightarrow> \<lparr>outcome = Inl e, loop_count = lc, printed = [], calls = 0\<rparr>
      | Inr share \<Rightarrow>
          if vlt share 50 \<and> lc < length (current_results data)
          then (case redistribute_bottom_points data of
                  Inl e \<Rightarrow> \<lparr>outcome = Inl e, loop_count = lc, printed = [], calls = 1\<rparr>
                | Inr (data', msg) \<Rightarrow>
                    (let r = while_loop data' (lc + 1)
                     in r\<lparr>printed := msg # printed r, calls := calls r + 1\<rparr>))
          else \<lparr>outcome = Inr data, loop_count = lc, printed = [], calls = 0\<rparr>)"
  by pat_completeness auto
termination
proof (relation "measure (\<lambda>(data, lc). length (current_results data) - lc)")
  show "wf (measure (\<lambda>(data, lc). length (current_results data) - lc))"
    by simp
next
  fix data :: table and lc :: nat and share x2 data' msg
  assume "vlt share 50 \<and> lc < length (current_results data)"
    and "redistribute_bottom_points data = Inr x2" and "(data', msg) = x2"
  then show "((data', lc + 1), data, lc)
               \<in> measure (\<lambda>(data, lc). length (current_results data) - lc)"
    using redistribute_parties [of data data' msg]
    by (auto simp: length_current_results)
qed

declare while_loop.simps [simp del]

text \<open>
  After the loop the table is collapsed to one row per party (the mean of each numeric
  column) and outer-joined with the diehard votes on \<open>best_party\<close>; both frames have one
  row per key, and the result is sorted by key. A party without diehard entry gets a
  missing \<open>diehard_votes\<close>.
\<close>

record party_row =
  pr_best_party :: string
  pr_current_votes :: val
  pr_redistributed_votes :: val
  pr_initial_votes :: val

record tally_row =
  t_best_party :: string
  t_current_votes :: val
  t_redistributed_votes :: val
  t_initial_votes :: val
  t_diehard_votes :: val

definition collapse :: "table \<Rightarrow> party_row list" where
  "collapse data =
     map (\<lambda>p. \<lparr>pr_best_party = p,
                 pr_current_votes = col_mean (map current_votes (group data p)),
                 pr_redistributed_votes = col_mean (map redistributed_votes (group data p)),
                 pr_initial_votes = col_mean (map initial_votes (group data p))\<rparr>)
       (parties data)"

definition merge_outer :: "party_row list \<Rightarrow> (string \<times> val) list \<Rightarrow> tally_row list" where
  "merge_outer rows diehard =
     map (\<lambda>p. case find (\<lambda>g. pr_best_party g = p) rows of
                 None \<Rightarrow> \<lparr>t_best_party = p, t_current_votes = NaN, t_redistributed_votes = NaN,
                           t_initial_votes = NaN,
                           t_diehard_votes = (case map_of diehard p of None \<Rightarrow> NaN | Some v \<Rightarrow> v)\<rparr>
               | Some g \<Rightarrow> \<lparr>t_best_party = p, t_current_votes = pr_current_votes g,
                             t_redistributed_votes = pr_redistributed_votes g,
                             t_initial_votes = pr_initial_votes g,
                             t_diehard_votes = (case map_of diehard p of None \<Rightarrow> NaN | Some v \<Rightarrow> v)\<rparr>)
       (sort (remdups (map pr_best_party rows @ map fst diehard)))"

text \<open>
  Parties whose \<open>current_votes\<close> is 0 get their diehard votes as \<open>current_votes\<close>; then
  every party's \<open>redistributed_votes\<close> is added to its \<open>current_votes\<close>.
\<close>

definition final_tally :: "table \<Rightarrow> (string \<times> val) list \<Rightarrow> tally_row list" where
  "final_tally data diehard =
     map (\<lambda>t. t\<lparr>t_current_votes := vadd (t_current_votes t) (t_redistributed_votes t)\<rparr>)
       (map (\<lambda>t. if t_current_votes t = Num 0
                  then t\<lparr>t_current_votes := t_diehard_votes t\<rparr> else t)
          (merge_outer (collapse data) diehard))"

text \<open>The simulation returns the final tally, or the exception, and what it printed.\<close>

definition simulateRankBasedElection :: "table \<Rightarrow> (error + tally_row list) \<times> notice list" where
  "simulateRankBasedElection data =
     (let diehard = diehard_votes data;
          r = while_loop data 1
      in (case outcome r of
            Inl e \<Rightarrow> Inl e
          | Inr data' \<Rightarrow> Inr (final_tally data' diehard),
          printed r))"

subsection \<open>bloc\<close>

text \<open>The dictionary literal, in its order; the last key and its value start with the letter o with diaeresis
  (code point 246).\<close>

definition bloc_table :: "(string \<times> string) list" where
  "bloc_table =
     [(''V'', ''Socialdemokratin''),
      (''SD'', ''SD''),
      (''M'', ''Alliansen''),
      (''C'', ''Alliansen''),
      (''L'', ''Alliansen''),
      (''KD'', ''Alliansen''),
      (''S'', ''Socialdemokratin''),
      (''MP'', ''Socialdemokratin''),
      (CHR 0xF6 # ''vriga'', CHR 0xF6 # ''vriga'')]"

definition bloc :: "string \<Rightarrow> error + string" where
  "bloc party = (case map_of bloc_table party of None \<Rightarrow> Inl (KeyError party) | Some b \<Rightarrow> Inr b)"

subsection \<open>The loop as a transition relation\<close>

text \<open>
  One iteration of the loop that completes: the condition holds in \<open>(data, loop_count)\<close>
  and the round returns the next table.
\<close>

inductive round_step :: "table \<times> nat \<Rightarrow> table \<times> nat \<Rightarrow> bool" where
  round: "top_party_votes_share data = Inr share \<Longrightarrow> vlt share 50
          \<Longrightarrow> lc < length (current_results data)
          \<Longrightarrow> redistribute_bottom_points data = Inr (data', msg)
          \<Longrightarrow> round_step (data, lc) (data', lc + 1)"

code_pred round_step .

text \<open>A party is eliminated in a table when all its rows have \<open>current_votes\<close> 0.\<close>

definition eliminated :: "string \<Rightarrow> table \<Rightarrow> bool" where
  "eliminated p data = (\<forall>r \<in> set data. best_party r = p \<longrightarrow> current_votes r = Num 0)"

subsection \<open>The state machine of the specification\<close>

text \<open>
  For comparison with \<open>while_loop\<close>, the loop as the specification words it: the round
  count starts at 0 and a round is run while the leading share is below 50 and the
  round count is below the number of distinct parties with nonzero votes in the current
  table. Everything else is as in \<open>while_loop\<close>; the final round count is returned
  in the field \<open>loop_count\<close>.
\<close>

definition number_of_distinct_parties_with_nonzero_votes :: "table \<Rightarrow> nat" where
  "number_of_distinct_parties_with_nonzero_votes data =
     length (filter (\<lambda>s. st_current_votes s \<noteq> Num 0) (current_results data))"

function spec_state_machine :: "table \<Rightarrow> nat \<Rightarrow> run" where
  "spec_state_machine data round_count =
     (case top_party_votes_share data of
        Inl e \<Rightarrow> \<lparr>outcome = Inl e, loop_count = round_count, printed = [], calls = 0\<rparr>
      | Inr share \<Rightarrow>
          if vlt share 50 \<and> round_count < number_of_distinct_parties_with_nonzero_votes data
          then (case redistribute_bottom_points data of
                  Inl e \<Rightarrow> \<lparr>outcome = Inl e, loop_count = round_count, printed = [], calls = 1\<rparr>
                | Inr (data', msg) \<Rightarrow>
                    (let r = spec_state_machine data' (round_count + 1)
                     in r\<lparr>printed := msg # printed r, calls := calls r + 1\<rparr>))
          else \<lparr>outcome = Inr data, loop_count = round_count, printed = [], calls = 0\<rparr>)"
  by pat_completeness auto
termination
proof (relation "measure (\<lambda>(data, rc). length (current_results data) - rc)")
  show "wf (measure (\<lambda>(data, rc). length (current_results data) - rc))"
    by simp
next
  fix data :: table and round_count :: nat and share x2 data' msg
  assume g: "vlt share 50 \<and> round_count < number_of_distinct_parties_with_nonzero_votes data"
    and "redistribute_bottom_points data = Inr x2" and "(data', msg) = x2"
  then have "length (current_results data') = length (current_results data)"
    using redistribute_parties [of data data' msg]
    by (auto simp: length_current_results)
  moreover have "number_of_distinct_parties_with_nonzero_votes data \<le> length (current_results data)"
    by (simp add: number_of_distinct_parties_with_nonzero_votes_def)
  ultimately show "((data', round_count + 1), data, round_count)
               \<in> measure (\<lambda>(data, rc). length (current_results data) - rc)"
    using g by auto
qed

declare spec_state_machine.simps [simp del]

subsection \<open>The sum of the votes\<close>











subsection \<open>Example tables\<close>

text \<open>
  A row as \<open>select_data\<close> builds it: \<open>initial_votes\<close> is a copy of \<open>current_votes\<close>;
  the last argument is the row's \<open>redistributed_votes\<close>.
\<close>

definition mk_row :: "string \<Rightarrow> rat \<Rightarrow> string \<Rightarrow> rat \<Rightarrow> rat \<Rightarrow> row" where
  "mk_row p votes nb share received =
     \<lparr>best_party = p, current_votes = Num votes, next_best_party = nb,
      redistribution_share = Num share, initial_votes = Num votes,
      redistributed_votes = Num received\<rparr>"

text \<open>Scenario A: X has 50 votes and no second preference, Y 30 votes to Z, Z 20 votes to X.\<close>

definition scenario_A :: table where
  "scenario_A =
     [mk_row ''X'' 50 ''inget parti'' 1 0,
      mk_row ''Y'' 30 ''Z'' 1 0,
      mk_row ''Z'' 20 ''X'' 1 0]"

text \<open>Two parties, the second one with fewer live votes but 25 received votes.\<close>

definition two_party_table :: table where
  "two_party_table =
     [mk_row ''A'' 40 ''B'' 1 0,
      mk_row ''B'' 30 ''A'' 1 25]"

text \<open>Three parties; the smallest one, C, names A as its only next-best party.\<close>

definition three_party_table :: table where
  "three_party_table =
     [mk_row ''A'' 40 ''B'' 1 0,
      mk_row ''B'' 35 ''A'' 1 0,
      mk_row ''C'' 25 ''A'' 1 0]"

text \<open>
  A table on which the loop runs two rounds (C, then B), and the tables after the first
  and after the second round.
\<close>

definition two_round_table :: table where
  "two_round_table =
     [mk_row ''A'' 40 ''B'' 1 0,
      mk_row ''B'' 35 ''A'' 1 0,
      mk_row ''C'' 25 ''A'' (1/5) 0,
      mk_row ''C'' 25 ''B'' (1/5) 0]"

definition after_round_1 :: table where
  "after_round_1 =
     [mk_row ''A'' 40 ''B'' 1 5,
      mk_row ''B'' 35 ''A'' 1 5,
      \<lparr>best_party = ''C'', current_votes = Num 0, next_best_party = ''A'',
        redistribution_share = Num (1/5), initial_votes = Num 25, redistributed_votes = NaN\<rparr>,
      \<lparr>best_party = ''C'', current_votes = Num 0, next_best_party = ''B'',
        redistribution_share = Num (1/5), initial_votes = Num 25, redistributed_votes = NaN\<rparr>]"

definition after_round_2 :: table where
  "after_round_2 =
     [mk_row ''A'' 40 ''B'' 1 40,
      \<lparr>best_party = ''B'', current_votes = Num 0, next_best_party = ''A'',
        redistribution_share = Num 1, initial_votes = Num 35, redistributed_votes = NaN\<rparr>,
      \<lparr>best_party = ''C'', current_votes = Num 0, next_best_party = ''A'',
        redistribution_share = Num (1/5), initial_votes = Num 25, redistributed_votes = NaN\<rparr>,
      \<lparr>best_party = ''C'', current_votes = Num 0, next_best_party = ''B'',
        redistribution_share = Num (1/5), initial_votes = Num 25, redistributed_votes = NaN\<rparr>]"


text \<open>One party, 40 votes, no second preference.\<close>

definition single_party_table :: table where
  "single_party_table = [mk_row ''A'' 40 ''inget parti'' 1 0]"

text \<open>The final tally of \<open>two_round_table\<close>.\<close>

definition two_round_tally :: "tally_row list" where
  "two_round_tally =
     [\<lparr>t_best_party = ''A'', t_current_votes = Num 80, t_redistributed_votes = Num 40,
        t_initial_votes = Num 40, t_diehard_votes = NaN\<rparr>,
      \<lparr>t_best_party = ''B'', t_current_votes = NaN, t_redistributed_votes = NaN,
        t_initial_votes = Num 35, t_diehard_votes = NaN\<rparr>,
      \<lparr>t_best_party = ''C'', t_current_votes = NaN, t_redistributed_votes = NaN,
        t_initial_votes = Num 25, t_diehard_votes = NaN\<rparr>]"





section \<open>Properties\<close>

subsection \<open>The leading share\<close>

lemma desc_key_le_Num:
  "desc_key v \<le> desc_key (Num a) \<Longrightarrow> \<exists>b. v = Num b \<and> a \<le> b"
  by (cases v) (auto simp: desc_key_def less_eq_prod_def)

lemma sort_key_hd_least:
  assumes "sort_key k xs = y # ys" and "x \<in> set xs"
  shows "k y \<le> k x"
proof -
  have "sorted (map k (sort_key k xs))"
    by (rule sorted_sort_key)
  with assms(1) have "\<forall>z \<in> set ys. k y \<le> k z"
    by simp
  moreover have "x \<in> set (sort_key k xs)"
    using assms(2) by (simp only: set_sort)
  ultimately show ?thesis
    using assms(1) by auto
qed

lemma sort_key_Nil_iff: "sort_key k xs = [] \<longleftrightarrow> xs = []"
proof -
  have "length (sort_key k xs) = length xs"
    by (rule length_sort)
  then show ?thesis
    by (metis length_0_conv)
qed

lemma current_results_empty: "current_results data = [] \<longleftrightarrow> data = []"
proof -
  have "length (current_results data) = 0 \<longleftrightarrow> data = []"
    by (simp add: length_current_results)
  then show ?thesis
    by simp
qed

text \<open>
  C1, as amended. The standings are sorted again by the totalled value before the first
  one is taken: on a table with at least one row, \<open>top_party_votes_share\<close> returns the
  total \<open>current_votes + redistributed_votes\<close> of some party, and no party has a larger
  total. That party need not be the one ranked first by \<open>current_votes\<close>.
\<close>

theorem top_party_votes_share_is_largest_total:
  assumes "data \<noteq> []"
  shows "\<exists>v. top_party_votes_share data = Inr v
           \<and> (\<exists>s \<in> set (current_results data).
                 v = vadd (st_current_votes s) (st_redistributed_votes s))
           \<and> (\<forall>s \<in> set (current_results data). \<forall>a.
                 vadd (st_current_votes s) (st_redistributed_votes s) = Num a
                   \<longrightarrow> (\<exists>b. v = Num b \<and> a \<le> b))"
proof -
  define tot :: "standing \<Rightarrow> standing" where
    "tot = (\<lambda>s. s\<lparr>st_current_votes := vadd (st_current_votes s) (st_redistributed_votes s)\<rparr>)"
  define k :: "standing \<Rightarrow> nat \<times> rat" where "k = (\<lambda>s. desc_key (st_current_votes s))"
  define xs where "xs = map tot (current_results data)"
  have def: "top_party_votes_share data =
      (case sort_key k xs of [] \<Rightarrow> Inl IndexError | s # ss \<Rightarrow> Inr (st_current_votes s))"
    by (simp add: top_party_votes_share_def tot_def k_def xs_def)
  have tot_cur: "st_current_votes (tot s) = vadd (st_current_votes s) (st_redistributed_votes s)" for s
    by (simp add: tot_def)
  from assms have "xs \<noteq> []"
    by (simp add: xs_def current_results_empty)
  then obtain y ys where ys: "sort_key k xs = y # ys"
    by (cases "sort_key k xs") (simp_all add: sort_key_Nil_iff)
  then have share: "top_party_votes_share data = Inr (st_current_votes y)"
    by (simp add: def)
  have "y \<in> set (sort_key k xs)"
    using ys by simp
  then have "y \<in> set xs"
    by (simp only: set_sort)
  then obtain s0 where s0: "s0 \<in> set (current_results data)" "y = tot s0"
    by (auto simp: xs_def)
  have least: "\<exists>b. st_current_votes y = Num b \<and> a \<le> b"
    if s: "s \<in> set (current_results data)"
      and a: "vadd (st_current_votes s) (st_redistributed_votes s) = Num a" for s a
  proof -
    from s have "tot s \<in> set xs"
      by (simp add: xs_def)
    with ys have "k y \<le> k (tot s)"
      by (rule sort_key_hd_least)
    then have "desc_key (st_current_votes y) \<le> desc_key (Num a)"
      by (simp add: k_def tot_cur a)
    then show ?thesis
      by (rule desc_key_le_Num)
  qed
  show ?thesis
  proof (intro exI conjI)
    show "top_party_votes_share data = Inr (st_current_votes y)"
      by (rule share)
    show "\<exists>s \<in> set (current_results data).
        st_current_votes y = vadd (st_current_votes s) (st_redistributed_votes s)"
      using s0 tot_cur by blast
    show "\<forall>s \<in> set (current_results data). \<forall>a.
        vadd (st_current_votes s) (st_redistributed_votes s) = Num a
          \<longrightarrow> (\<exists>b. st_current_votes y = Num b \<and> a \<le> b)"
      using least by blast
  qed
qed

theorem top_party_votes_share_is_largest_total_witness:
  "two_party_table \<noteq> []
   \<and> (\<exists>v. top_party_votes_share two_party_table = Inr v
          \<and> (\<exists>s \<in> set (current_results two_party_table).
                v = vadd (st_current_votes s) (st_redistributed_votes s))
          \<and> (\<forall>s \<in> set (current_results two_party_table). \<forall>a.
                vadd (st_current_votes s) (st_redistributed_votes s) = Num a
                  \<longrightarrow> (\<exists>b. v = Num b \<and> a \<le> b)))"
proof (rule conjI)
  show h: "two_party_table \<noteq> []"
    by (simp add: two_party_table_def)
  show "\<exists>v. top_party_votes_share two_party_table = Inr v
          \<and> (\<exists>s \<in> set (current_results two_party_table).
                v = vadd (st_current_votes s) (st_redistributed_votes s))
          \<and> (\<forall>s \<in> set (current_results two_party_table). \<forall>a.
                vadd (st_current_votes s) (st_redistributed_votes s) = Num a
                  \<longrightarrow> (\<exists>b. v = Num b \<and> a \<le> b))"
    by (rule top_party_votes_share_is_largest_total [OF h])
qed

text \<open>
  C1, counterexample. In \<open>two_party_table\<close> the party ranked first by \<open>current_votes\<close>
  is A, with 40 + 0 = 40, and the function returns B's 30 + 25 = 55.
\<close>

theorem leading_share_not_of_first_ranked:
  "st_best_party (hd (current_results two_party_table)) = ''A''
   \<and> vadd (st_current_votes (hd (current_results two_party_table)))
          (st_redistributed_votes (hd (current_results two_party_table))) = Num 40
   \<and> top_party_votes_share two_party_table = Inr (Num 55)"
  by code_simp

subsection \<open>One round on a table with unmatched rows\<close>

text \<open>
  C2. In \<open>three_party_table\<close> the bottom party C transfers its 25 points to A only.
  The rows of B and C match no destination: the left join gives them a missing addend,
  and \<open>redistributed_votes + NaN\<close> is NaN, so their \<open>redistributed_votes\<close>, 0 before the
  call, is missing after it. The \<open>current_votes\<close> of B is unchanged.
\<close>

theorem unmatched_row_gets_missing_value:
  "redistribute_bottom_points three_party_table =
     Inr ([\<lparr>best_party = ''A'', current_votes = Num 40, next_best_party = ''B'',
             redistribution_share = Num 1, initial_votes = Num 40,
             redistributed_votes = Num 25\<rparr>,
           \<lparr>best_party = ''B'', current_votes = Num 35, next_best_party = ''A'',
             redistribution_share = Num 1, initial_votes = Num 35,
             redistributed_votes = NaN\<rparr>,
           \<lparr>best_party = ''C'', current_votes = Num 0, next_best_party = ''A'',
             redistribution_share = Num 1, initial_votes = Num 25,
             redistributed_votes = NaN\<rparr>],
          (''C'', Num 40))"
  by code_simp

subsection \<open>Scenario A\<close>

text \<open>
  C3, counterexample. The leading share of Scenario A is 50, which is not below 50: the
  loop condition is false at once, no round is run and nothing is printed, so Z is not
  eliminated.
\<close>

theorem scenario_A_no_round:
  "top_party_votes_share scenario_A = Inr (Num 50)
   \<and> \<not> vlt (Num 50) 50
   \<and> calls (while_loop scenario_A 1) = 0
   \<and> snd (simulateRankBasedElection scenario_A) = []"
  by code_simp

text \<open>
  C3, as amended. On Scenario A the loop ends with \<open>loop_count = 1\<close>, without a round and
  with the table unchanged, and the final tally is X = 50, Y = 30, Z = 20.
\<close>

theorem scenario_A_result:
  "while_loop scenario_A 1 =
     \<lparr>outcome = Inr scenario_A, loop_count = 1, printed = [], calls = 0\<rparr>
   \<and> simulateRankBasedElection scenario_A =
     (Inr [\<lparr>t_best_party = ''X'', t_current_votes = Num 50, t_redistributed_votes = Num 0,
             t_initial_votes = Num 50, t_diehard_votes = Num 50\<rparr>,
           \<lparr>t_best_party = ''Y'', t_current_votes = Num 30, t_redistributed_votes = Num 0,
             t_initial_votes = Num 30, t_diehard_votes = NaN\<rparr>,
           \<lparr>t_best_party = ''Z'', t_current_votes = Num 20, t_redistributed_votes = Num 0,
             t_initial_votes = Num 20, t_diehard_votes = NaN\<rparr>],
      [])"
  by code_simp

subsection \<open>The empty table\<close>



subsection \<open>The bloc of a party\<close>

text \<open>
  C9, counterexample. For the code XX, which is no key of the dictionary, the subscript
  raises KeyError: \<open>bloc\<close> does not guard the lookup and has no error of its own for an
  unknown party.
\<close>

theorem unknown_code_raises_KeyError:
  "bloc ''XX'' = Inl (KeyError ''XX'')"
  by (simp add: bloc_def bloc_table_def)

text \<open>
  C9, as amended. \<open>bloc\<close> returns a label for every key of the dictionary, \<open>Alliansen\<close>
  for M, and for every other code the dictionary subscript raises KeyError, carrying the
  code.
\<close>

theorem bloc_total:
  "bloc ''M'' = Inr ''Alliansen''
   \<and> (p \<in> set (map fst bloc_table) \<longrightarrow> (\<exists>b. bloc p = Inr b))
   \<and> (p \<notin> set (map fst bloc_table) \<longrightarrow> bloc p = Inl (KeyError p))"
proof (intro conjI impI)
  show "bloc ''M'' = Inr ''Alliansen''"
    by (simp add: bloc_def bloc_table_def)
next
  assume "p \<in> set (map fst bloc_table)"
  then obtain b where "map_of bloc_table p = Some b"
    by (metis map_of_eq_None_iff not_Some_eq set_map)
  then show "\<exists>b. bloc p = Inr b"
    by (simp add: bloc_def)
next
  assume "p \<notin> set (map fst bloc_table)"
  then have "map_of bloc_table p = None"
    by (simp add: map_of_eq_None_iff)
  then show "bloc p = Inl (KeyError p)"
    by (simp add: bloc_def)
qed

theorem bloc_total_witness:
  "''KD'' \<in> set (map fst bloc_table) \<and> (\<exists>b. bloc ''KD'' = Inr b)
   \<and> ''XX'' \<notin> set (map fst bloc_table) \<and> bloc ''XX'' = Inl (KeyError ''XX'')"
proof -
  have kd: "''KD'' \<in> set (map fst bloc_table)"
    by (simp add: bloc_table_def)
  have xx: "''XX'' \<notin> set (map fst bloc_table)"
    by (simp add: bloc_table_def)
  from bloc_total [of "''KD''"] kd have "\<exists>b. bloc ''KD'' = Inr b"
    by blast
  moreover from bloc_total [of "''XX''"] xx have "bloc ''XX'' = Inl (KeyError ''XX'')"
    by blast
  ultimately show ?thesis
    using kd xx by blast
qed

subsection \<open>The iterations of the loop\<close>

lemma while_loop_raise:
  "top_party_votes_share data = Inl e
   \<Longrightarrow> while_loop data lc = \<lparr>outcome = Inl e, loop_count = lc, printed = [], calls = 0\<rparr>"
  by (subst while_loop.simps) simp

lemma while_loop_exit:
  "top_party_votes_share data = Inr share
   \<Longrightarrow> \<not> (vlt share 50 \<and> lc < length (current_results data))
   \<Longrightarrow> while_loop data lc = \<lparr>outcome = Inr data, loop_count = lc, printed = [], calls = 0\<rparr>"
  by (subst while_loop.simps) auto

lemma while_loop_round_raise:
  "top_party_votes_share data = Inr share
   \<Longrightarrow> vlt share 50 \<and> lc < length (current_results data)
   \<Longrightarrow> redistribute_bottom_points data = Inl e
   \<Longrightarrow> while_loop data lc = \<lparr>outcome = Inl e, loop_count = lc, printed = [], calls = 1\<rparr>"
  by (subst while_loop.simps) auto

lemma while_loop_round:
  "top_party_votes_share data = Inr share
   \<Longrightarrow> vlt share 50 \<and> lc < length (current_results data)
   \<Longrightarrow> redistribute_bottom_points data = Inr (data', msg)
   \<Longrightarrow> while_loop data lc =
         (while_loop data' (lc + 1))
           \<lparr>printed := msg # printed (while_loop data' (lc + 1)),
            calls := calls (while_loop data' (lc + 1)) + 1\<rparr>"
  by (subst while_loop.simps) (auto simp: Let_def)

text \<open>The four ways through one iteration, as an induction rule.\<close>

lemma while_loop_induct [case_names raise exit round_raise round]:
  assumes "\<And>data lc e. top_party_votes_share data = Inl e \<Longrightarrow> P data lc"
    and "\<And>data lc share. top_party_votes_share data = Inr share
           \<Longrightarrow> \<not> (vlt share 50 \<and> lc < length (current_results data)) \<Longrightarrow> P data lc"
    and "\<And>data lc share e. top_party_votes_share data = Inr share
           \<Longrightarrow> vlt share 50 \<and> lc < length (current_results data)
           \<Longrightarrow> redistribute_bottom_points data = Inl e \<Longrightarrow> P data lc"
    and "\<And>data lc share data' msg. top_party_votes_share data = Inr share
           \<Longrightarrow> vlt share 50 \<and> lc < length (current_results data)
           \<Longrightarrow> redistribute_bottom_points data = Inr (data', msg)
           \<Longrightarrow> P data' (lc + 1) \<Longrightarrow> P data lc"
  shows "P data lc"
proof (induction data lc rule: while_loop.induct)
  case (1 data lc)
  show ?case
  proof (cases "top_party_votes_share data")
    case (Inl e)
    then show ?thesis by (rule assms(1))
  next
    case (Inr share)
    show ?thesis
    proof (cases "vlt share 50 \<and> lc < length (current_results data)")
      case False
      with Inr show ?thesis by (rule assms(2))
    next
      case True
      show ?thesis
      proof (cases "redistribute_bottom_points data")
        case (Inl e)
        with Inr True show ?thesis by (rule assms(3))
      next
        case round: (Inr x)
        obtain data' msg where x: "x = (data', msg)"
          by (cases x)
        from "1.IH" [OF Inr True round x [symmetric]] have "P data' (lc + 1)" .
        with Inr True round x show ?thesis
          using assms(4) by blast
      qed
    qed
  qed
qed

lemma while_loop_reaches:
  "outcome (while_loop data lc) = Inr data'
   \<Longrightarrow> round_step\<^sup>*\<^sup>* (data, lc) (data', loop_count (while_loop data lc))"
proof (induction data lc rule: while_loop_induct)
  case (raise data lc e)
  then show ?case by (simp add: while_loop_raise)
next
  case (exit data lc share)
  then show ?case by (simp add: while_loop_exit)
next
  case (round_raise data lc share e)
  then show ?case by (simp add: while_loop_round_raise)
next
  case (round data lc share d1 msg)
  have eq: "while_loop data lc =
      (while_loop d1 (lc + 1))\<lparr>printed := msg # printed (while_loop d1 (lc + 1)),
                                calls := calls (while_loop d1 (lc + 1)) + 1\<rparr>"
    using round(1-3) by (rule while_loop_round)
  from round(5) have "outcome (while_loop d1 (lc + 1)) = Inr data'"
    by (simp add: eq)
  then have "round_step\<^sup>*\<^sup>* (d1, lc + 1) (data', loop_count (while_loop d1 (lc + 1)))"
    by (rule round.IH)
  moreover have "round_step (data, lc) (d1, lc + 1)"
    by (rule round_step.intros [where share = share and msg = msg])
      (use round(1-3) in simp_all)
  ultimately show ?case
    by (simp add: eq)
qed

subsection \<open>The number of rounds\<close>

lemma while_loop_calls_bound:
  "calls (while_loop data lc) \<le> length (current_results data) - lc"
proof (induction data lc rule: while_loop.induct)
  case (1 data lc)
  show ?case
  proof (cases "top_party_votes_share data")
    case (Inl e)
    then show ?thesis
      by (subst while_loop.simps) simp
  next
    case (Inr share)
    show ?thesis
    proof (cases "vlt share 50 \<and> lc < length (current_results data)")
      case False
      with Inr show ?thesis
        by (subst while_loop.simps) auto
    next
      case True
      show ?thesis
      proof (cases "redistribute_bottom_points data")
        case (Inl e)
        with Inr True show ?thesis
          by (subst while_loop.simps) auto
      next
        case round: (Inr x)
        obtain data' msg where x: "x = (data', msg)"
          by (cases x)
        from round x have len: "length (current_results data') = length (current_results data)"
          using redistribute_parties [of data data' msg]
          by (simp add: length_current_results)
        from "1.IH" [OF Inr True round x [symmetric]]
        have "calls (while_loop data' (lc + 1)) \<le> length (current_results data') - (lc + 1)" .
        with len True Inr round x show ?thesis
          by (subst while_loop.simps) (auto simp: Let_def)
      qed
    qed
  qed
qed

text \<open>
  C5. The loop calls \<open>redistribute_bottom_points\<close> at most N times, N the number of
  distinct \<open>best_party\<close> values of the input table (a call that raises is counted). The
  loop is a total function: it always exits.
\<close>

theorem loop_runs_at_most_N_rounds:
  "calls (while_loop data 1) \<le> card (best_party ` set data)"
proof -
  have "calls (while_loop data 1) \<le> length (current_results data) - 1"
    by (rule while_loop_calls_bound)
  then show ?thesis
    by (simp add: length_current_results)
qed

subsection \<open>Eliminated parties\<close>

lemma merge_left_fst: "x \<in> set (merge_left data points) \<Longrightarrow> fst x \<in> set data"
  by (induction data) (auto simp: merge_left_def split: list.splits)

lemma redistribute_rows:
  assumes "redistribute_bottom_points data = Inr (data', msg)" and "r' \<in> set data'"
  obtains r where "r \<in> set data" and "best_party r' = best_party r"
    and "current_votes r' = (if best_party r = fst msg then Num 0 else current_votes r)"
proof -
  let ?m = "merge_left data (points_to_redistribute data (fst msg))"
  from assms obtain x where x: "x \<in> set ?m"
    and r': "r' = (if best_party (fst x) = fst msg
                   then (fst x)\<lparr>redistributed_votes := vadd (redistributed_votes (fst x)) (snd x),
                                 current_votes := Num 0\<rparr>
                   else (fst x)\<lparr>redistributed_votes := vadd (redistributed_votes (fst x)) (snd x)\<rparr>)"
    by (elim redistribute_unfold) (auto simp: case_prod_beta)
  from x have "fst x \<in> set data"
    by (rule merge_left_fst)
  moreover from r' have "best_party r' = best_party (fst x)"
    by simp
  moreover from r' have "current_votes r' =
      (if best_party (fst x) = fst msg then Num 0 else current_votes (fst x))"
    by simp
  ultimately show ?thesis
    by (rule that)
qed

lemma redistribute_eliminates:
  assumes "redistribute_bottom_points data = Inr (data', msg)"
  shows "eliminated (fst msg) data'"
  unfolding eliminated_def
proof (intro ballI impI)
  fix r' assume "r' \<in> set data'" and p: "best_party r' = fst msg"
  with assms obtain r where "r \<in> set data" and "best_party r' = best_party r"
    and "current_votes r' = (if best_party r = fst msg then Num 0 else current_votes r)"
    by (elim redistribute_rows)
  with p show "current_votes r' = Num 0"
    by simp
qed

lemma redistribute_keeps_eliminated:
  assumes "eliminated p data" and "redistribute_bottom_points data = Inr (data', msg)"
  shows "eliminated p data'"
  unfolding eliminated_def
proof (intro ballI impI)
  fix r' assume "r' \<in> set data'" and p: "best_party r' = p"
  with assms(2) obtain r where "r \<in> set data" and "best_party r' = best_party r"
    and "current_votes r' = (if best_party r = fst msg then Num 0 else current_votes r)"
    by (elim redistribute_rows)
  with p assms(1) show "current_votes r' = Num 0"
    by (auto simp: eliminated_def)
qed

lemma nums_all_zero: "\<forall>v \<in> set vs. v = Num 0 \<Longrightarrow> nums vs = replicate (length vs) 0"
  by (induction vs) auto

lemma fold_max_const: "\<forall>x \<in> set xs. x = (a::rat) \<Longrightarrow> fold max xs a = a"
  by (induction xs) auto

lemma col_max_all_zero:
  assumes "vs \<noteq> []" and "\<forall>v \<in> set vs. v = Num 0"
  shows "col_max vs = Num 0"
proof -
  from assms(1) obtain n where "length vs = Suc n"
    by (cases vs) auto
  with nums_all_zero [OF assms(2)] have "nums vs = 0 # replicate n 0"
    by simp
  moreover have "fold max (replicate n 0) (0::rat) = 0"
    by (rule fold_max_const) simp
  ultimately show ?thesis
    by (simp add: col_max_def del: fold_replicate)
qed

lemma group_nonempty: "p \<in> set (parties data) \<Longrightarrow> group data p \<noteq> []"
  by (auto simp: parties_def group_def filter_empty_conv)

lemma eliminated_standing:
  assumes "eliminated p data" and "s \<in> set (current_results data)" and "st_best_party s = p"
  shows "st_current_votes s = Num 0"
proof -
  from assms(2) obtain q where q: "q \<in> set (parties data)"
    and s: "s = \<lparr>st_best_party = q,
                  st_current_votes = col_max (map current_votes (group data q)),
                  st_redistributed_votes = col_max (map redistributed_votes (group data q))\<rparr>"
    by (auto simp: current_results_def)
  with assms(3) have "q = p"
    by simp
  have "map current_votes (group data p) \<noteq> []"
    using q \<open>q = p\<close> group_nonempty by simp
  moreover have "\<forall>v \<in> set (map current_votes (group data p)). v = Num 0"
    using assms(1) by (auto simp: eliminated_def group_def)
  ultimately have "col_max (map current_votes (group data p)) = Num 0"
    by (rule col_max_all_zero)
  with s \<open>q = p\<close> show ?thesis
    by simp
qed

lemma bottom_party_standing:
  assumes "bottom_party_name data = Inr p"
  obtains s where "s \<in> set (current_results data)" and "st_best_party s = p"
    and "st_current_votes s \<noteq> Num 0"
proof -
  let ?f = "filter (\<lambda>s. st_current_votes s \<noteq> Num 0) (current_results data)"
  from assms have ne: "?f \<noteq> []" and p: "p = st_best_party (last ?f)"
    by (auto simp: bottom_party_name_def split: list.splits)
  from ne have "last ?f \<in> set ?f"
    by (rule last_in_set)
  then have "last ?f \<in> set (current_results data)" and "st_current_votes (last ?f) \<noteq> Num 0"
    by auto
  with p show ?thesis
    using that by blast
qed

lemma eliminated_not_bottom:
  assumes "eliminated p data"
  shows "bottom_party_name data \<noteq> Inr p"
proof
  assume "bottom_party_name data = Inr p"
  then obtain s where "s \<in> set (current_results data)" and "st_best_party s = p"
    and "st_current_votes s \<noteq> Num 0"
    by (rule bottom_party_standing)
  with eliminated_standing [OF assms] show False
    by blast
qed

lemma eliminated_not_printed:
  "eliminated p data \<Longrightarrow> p \<notin> fst ` set (printed (while_loop data lc))"
proof (induction data lc rule: while_loop_induct)
  case (raise data lc e)
  then show ?case by (simp add: while_loop_raise)
next
  case (exit data lc share)
  then show ?case by (simp add: while_loop_exit)
next
  case (round_raise data lc share e)
  then show ?case by (simp add: while_loop_round_raise)
next
  case (round data lc share d1 msg)
  have eq: "while_loop data lc =
      (while_loop d1 (lc + 1))\<lparr>printed := msg # printed (while_loop d1 (lc + 1)),
                                calls := calls (while_loop d1 (lc + 1)) + 1\<rparr>"
    using round(1-3) by (rule while_loop_round)
  from round(3) have "bottom_party_name data = Inr (fst msg)"
    by (elim redistribute_unfold)
  with eliminated_not_bottom [OF round(5)] have "fst msg \<noteq> p"
    by auto
  moreover from round(5,3) have "eliminated p d1"
    by (rule redistribute_keeps_eliminated)
  then have "p \<notin> fst ` set (printed (while_loop d1 (lc + 1)))"
    by (rule round.IH)
  ultimately show ?case
    by (auto simp: eq)
qed

lemma round_step_keeps_eliminated:
  assumes "round_step\<^sup>*\<^sup>* (d1, lc1) (d2, lc2)" and "eliminated p d1"
  shows "eliminated p d2"
  using assms
proof (induction rule: rtranclp_induct2)
  case refl
  then show ?case by simp
next
  case (step d lc d' lc')
  from step(2) obtain msg where "redistribute_bottom_points d = Inr (d', msg)"
    by (auto elim: round_step.cases)
  with step show ?case
    by (auto intro: redistribute_keeps_eliminated)
qed

text \<open>
  C7. When a round has eliminated party \<open>p\<close>, then in every state that the loop reaches
  from there by further rounds all rows of \<open>p\<close> still have \<open>current_votes\<close> 0, \<open>p\<close> is
  not the bottom party, and the rest of the loop never prints \<open>p\<close> as redistributed.
\<close>

theorem eliminated_party_stays_eliminated:
  assumes "redistribute_bottom_points d0 = Inr (d1, (p, share))"
    and "round_step\<^sup>*\<^sup>* (d1, lc1) (d2, lc2)"
  shows "eliminated p d2 \<and> bottom_party_name d2 \<noteq> Inr p
         \<and> p \<notin> fst ` set (printed (while_loop d2 lc2))"
proof -
  from assms(1) have "eliminated (fst (p, share)) d1"
    by (rule redistribute_eliminates)
  then have "eliminated p d1"
    by simp
  with assms(2) have "eliminated p d2"
    by (rule round_step_keeps_eliminated)
  then show ?thesis
    by (simp add: eliminated_not_bottom eliminated_not_printed)
qed

theorem eliminated_party_stays_eliminated_witness:
  "redistribute_bottom_points two_round_table = Inr (after_round_1, (''C'', Num 40))
   \<and> round_step\<^sup>*\<^sup>* (after_round_1, 2) (after_round_2, 3)
   \<and> eliminated ''C'' after_round_2 \<and> bottom_party_name after_round_2 \<noteq> Inr ''C''
   \<and> ''C'' \<notin> fst ` set (printed (while_loop after_round_2 3))"
proof -
  have r1: "redistribute_bottom_points two_round_table = Inr (after_round_1, (''C'', Num 40))"
    by code_simp
  have "top_party_votes_share after_round_1 = Inr (Num 45)"
    by code_simp
  moreover have "vlt (Num 45) 50"
    by simp
  moreover have "2 < length (current_results after_round_1)"
    by code_simp
  moreover have "redistribute_bottom_points after_round_1 = Inr (after_round_2, (''B'', Num 45))"
    by code_simp
  ultimately have "round_step (after_round_1, 2) (after_round_2, 2 + 1)"
    by (rule round_step.intros)
  then have r2: "round_step\<^sup>*\<^sup>* (after_round_1, 2) (after_round_2, 3)"
    by simp
  from eliminated_party_stays_eliminated [OF r1 r2] r1 r2 show ?thesis
    by simp
qed

subsection \<open>The loop and the state machine\<close>

text \<open>
  C6, counterexample. On \<open>single_party_table\<close> the loop of the program runs no round
  (\<open>loop_count = 1\<close> is not below the one party of the table), and the state machine of
  the specification runs one (round count 0 is below the one party with nonzero votes)
  and eliminates A.
\<close>

theorem loop_differs_from_spec_state_machine:
  "while_loop single_party_table 1 =
     \<lparr>outcome = Inr single_party_table, loop_count = 1, printed = [], calls = 0\<rparr>
   \<and> calls (spec_state_machine single_party_table 0) = 1
   \<and> printed (spec_state_machine single_party_table 0) = [(''A'', Num 40)]"
  by code_simp

lemma while_loop_terminal:
  "outcome (while_loop data lc) = Inr data'
   \<Longrightarrow> \<exists>share. top_party_votes_share data' = Inr share
         \<and> \<not> (vlt share 50 \<and> loop_count (while_loop data lc) < length (current_results data'))"
proof (induction data lc rule: while_loop_induct)
  case (raise data lc e)
  then show ?case by (simp add: while_loop_raise)
next
  case (exit data lc share)
  then show ?case by (auto simp: while_loop_exit)
next
  case (round_raise data lc share e)
  then show ?case by (simp add: while_loop_round_raise)
next
  case (round data lc share d1 msg)
  have eq: "while_loop data lc =
      (while_loop d1 (lc + 1))\<lparr>printed := msg # printed (while_loop d1 (lc + 1)),
                                calls := calls (while_loop d1 (lc + 1)) + 1\<rparr>"
    using round(1-3) by (rule while_loop_round)
  from round(5) have "outcome (while_loop d1 (lc + 1)) = Inr data'"
    by (simp add: eq)
  then have "\<exists>share. top_party_votes_share data' = Inr share
      \<and> \<not> (vlt share 50 \<and> loop_count (while_loop d1 (lc + 1)) < length (current_results data'))"
    by (rule round.IH)
  then show ?case
    by (simp add: eq)
qed

lemma while_loop_count:
  "outcome (while_loop data lc) = Inr data'
   \<Longrightarrow> loop_count (while_loop data lc) = lc + calls (while_loop data lc)"
proof (induction data lc rule: while_loop_induct)
  case (raise data lc e)
  then show ?case by (simp add: while_loop_raise)
next
  case (exit data lc share)
  then show ?case by (simp add: while_loop_exit)
next
  case (round_raise data lc share e)
  then show ?case by (simp add: while_loop_round_raise)
next
  case (round data lc share d1 msg)
  have eq: "while_loop data lc =
      (while_loop d1 (lc + 1))\<lparr>printed := msg # printed (while_loop d1 (lc + 1)),
                                calls := calls (while_loop d1 (lc + 1)) + 1\<rparr>"
    using round(1-3) by (rule while_loop_round)
  from round(5) have "outcome (while_loop d1 (lc + 1)) = Inr data'"
    by (simp add: eq)
  then have "loop_count (while_loop d1 (lc + 1)) = lc + 1 + calls (while_loop d1 (lc + 1))"
    by (rule round.IH)
  then show ?case
    by (simp add: eq)
qed

text \<open>
  C6, as amended. The counter starts at 1 and the bound is the number of all distinct
  parties of the current table: when the loop returns a table, that table is reached
  from the input by transitions of \<open>round_step\<close>, each one a round run under the
  condition "leading share below 50 and \<open>loop_count\<close> below the number of distinct
  parties" and adding 1 to \<open>loop_count\<close>; in the final state the condition is false; and
  \<open>loop_count\<close> is 1 plus the number of rounds.
\<close>

theorem loop_is_round_step_machine:
  assumes "outcome (while_loop data 1) = Inr data'"
  shows "round_step\<^sup>*\<^sup>* (data, 1) (data', loop_count (while_loop data 1))
         \<and> (\<exists>share. top_party_votes_share data' = Inr share
               \<and> \<not> (vlt share 50
                      \<and> loop_count (while_loop data 1) < card (best_party ` set data')))
         \<and> loop_count (while_loop data 1) = 1 + calls (while_loop data 1)"
proof (intro conjI)
  show "round_step\<^sup>*\<^sup>* (data, 1) (data', loop_count (while_loop data 1))"
    using assms by (rule while_loop_reaches)
  show "\<exists>share. top_party_votes_share data' = Inr share
      \<and> \<not> (vlt share 50 \<and> loop_count (while_loop data 1) < card (best_party ` set data'))"
    using while_loop_terminal [OF assms] by (simp add: length_current_results)
  show "loop_count (while_loop data 1) = 1 + calls (while_loop data 1)"
    using assms by (rule while_loop_count)
qed

theorem loop_is_round_step_machine_witness:
  "outcome (while_loop two_round_table 1) = Inr after_round_2
   \<and> round_step\<^sup>*\<^sup>* (two_round_table, 1) (after_round_2, loop_count (while_loop two_round_table 1))
   \<and> (\<exists>share. top_party_votes_share after_round_2 = Inr share
         \<and> \<not> (vlt share 50
                \<and> loop_count (while_loop two_round_table 1) < card (best_party ` set after_round_2)))
   \<and> loop_count (while_loop two_round_table 1) = 1 + calls (while_loop two_round_table 1)"
proof -
  have h: "outcome (while_loop two_round_table 1) = Inr after_round_2"
    by code_simp
  from h loop_is_round_step_machine [OF h] show ?thesis
    by (rule conjI)
qed

subsection \<open>The final tally of an eliminated party\<close>

lemma bottom_party_in_table:
  assumes "bottom_party_name data = Inr p"
  shows "p \<in> best_party ` set data"
proof -
  from assms obtain s where "s \<in> set (current_results data)" and "st_best_party s = p"
    by (rule bottom_party_standing)
  then have "p \<in> set (parties data)"
    by (auto simp: current_results_def)
  then show ?thesis
    by (simp add: parties_def)
qed

lemma while_loop_parties:
  "outcome (while_loop data lc) = Inr data' \<Longrightarrow> best_party ` set data' = best_party ` set data"
proof (induction data lc rule: while_loop_induct)
  case (raise data lc e)
  then show ?case by (simp add: while_loop_raise)
next
  case (exit data lc share)
  then show ?case by (simp add: while_loop_exit)
next
  case (round_raise data lc share e)
  then show ?case by (simp add: while_loop_round_raise)
next
  case (round data lc share d1 msg)
  have eq: "while_loop data lc =
      (while_loop d1 (lc + 1))\<lparr>printed := msg # printed (while_loop d1 (lc + 1)),
                                calls := calls (while_loop d1 (lc + 1)) + 1\<rparr>"
    using round(1-3) by (rule while_loop_round)
  from round(5) have "outcome (while_loop d1 (lc + 1)) = Inr data'"
    by (simp add: eq)
  then have "best_party ` set data' = best_party ` set d1"
    by (rule round.IH)
  with redistribute_parties [OF round(3)] show ?case
    by simp
qed

lemma while_loop_keeps_eliminated:
  assumes "eliminated p data" and "outcome (while_loop data lc) = Inr data'"
  shows "eliminated p data'"
proof -
  from assms(2) have "round_step\<^sup>*\<^sup>* (data, lc) (data', loop_count (while_loop data lc))"
    by (rule while_loop_reaches)
  then show ?thesis
    using assms(1) by (rule round_step_keeps_eliminated)
qed

lemma printed_party_eliminated:
  "p \<in> fst ` set (printed (while_loop data lc)) \<Longrightarrow> outcome (while_loop data lc) = Inr data'
   \<Longrightarrow> eliminated p data' \<and> p \<in> best_party ` set data'"
proof (induction data lc rule: while_loop_induct)
  case (raise data lc e)
  then show ?case by (simp add: while_loop_raise)
next
  case (exit data lc share)
  then show ?case by (simp add: while_loop_exit)
next
  case (round_raise data lc share e)
  then show ?case by (simp add: while_loop_round_raise)
next
  case (round data lc share d1 msg)
  have eq: "while_loop data lc =
      (while_loop d1 (lc + 1))\<lparr>printed := msg # printed (while_loop d1 (lc + 1)),
                                calls := calls (while_loop d1 (lc + 1)) + 1\<rparr>"
    using round(1-3) by (rule while_loop_round)
  from round(6) have out: "outcome (while_loop d1 (lc + 1)) = Inr data'"
    by (simp add: eq)
  show ?case
  proof (cases "p = fst msg")
    case True
    from round(3) have "eliminated (fst msg) d1"
      by (rule redistribute_eliminates)
    with True out have "eliminated p data'"
      by (simp add: while_loop_keeps_eliminated)
    moreover from round(3) have "bottom_party_name data = Inr (fst msg)"
      by (elim redistribute_unfold)
    then have "p \<in> best_party ` set data"
      using True by (simp add: bottom_party_in_table)
    then have "p \<in> best_party ` set data'"
      using redistribute_parties [OF round(3)] while_loop_parties [OF out] by simp
    ultimately show ?thesis
      by simp
  next
    case False
    with round(5) have "p \<in> fst ` set (printed (while_loop d1 (lc + 1)))"
      by (auto simp: eq)
    then show ?thesis
      using out by (rule round.IH)
  qed
qed

lemma diehard_votes_keys:
  assumes "p \<in> fst ` set (diehard_votes data)"
  shows "\<exists>r \<in> set data. best_party r = p
           \<and> (next_best_party r = ''inget parti'' \<or> next_best_party r = ''vet ej/uppgift saknas'')"
proof -
  let ?rows = "filter (\<lambda>r. next_best_party r = ''inget parti''
                            \<or> next_best_party r = ''vet ej/uppgift saknas'') data"
  from assms have "p \<in> set (parties ?rows)"
    by (auto simp: diehard_votes_def Let_def)
  then have "p \<in> best_party ` set ?rows"
    by (simp add: parties_def)
  then show ?thesis
    by auto
qed

lemma sum_list_replicate_zero: "sum_list (replicate n (0::rat)) = 0"
  by (induction n) auto

lemma col_mean_all_zero:
  assumes "vs \<noteq> []" and "\<forall>v \<in> set vs. v = Num 0"
  shows "col_mean vs = Num 0"
proof -
  from assms(1) obtain n where "length vs = Suc n"
    by (cases vs) auto
  with nums_all_zero [OF assms(2)] have "nums vs = 0 # replicate n 0"
    by simp
  then show ?thesis
    by (simp add: col_mean_def sum_list_replicate_zero)
qed

lemma find_collapse:
  assumes "p \<in> set ps"
  shows "find (\<lambda>g. pr_best_party g = p)
           (map (\<lambda>q. \<lparr>pr_best_party = q, pr_current_votes = c q,
                        pr_redistributed_votes = rd q, pr_initial_votes = i q\<rparr>) ps)
         = Some \<lparr>pr_best_party = p, pr_current_votes = c p,
                  pr_redistributed_votes = rd p, pr_initial_votes = i p\<rparr>"
  using assms by (induction ps) auto

lemma final_tally_eliminated:
  assumes in_table: "p \<in> best_party ` set data"
    and elim: "eliminated p data"
    and no_diehard: "p \<notin> fst ` set diehard"
  shows "(\<exists>t \<in> set (final_tally data diehard). t_best_party t = p)
         \<and> (\<forall>t \<in> set (final_tally data diehard).
               t_best_party t = p \<longrightarrow> t_current_votes t = NaN \<and> t_diehard_votes t = NaN)"
proof -
  define h where "h = (\<lambda>q. case find (\<lambda>g. pr_best_party g = q) (collapse data) of
                 None \<Rightarrow> \<lparr>t_best_party = q, t_current_votes = NaN, t_redistributed_votes = NaN,
                           t_initial_votes = NaN,
                           t_diehard_votes = (case map_of diehard q of None \<Rightarrow> NaN | Some v \<Rightarrow> v)\<rparr>
               | Some g \<Rightarrow> \<lparr>t_best_party = q, t_current_votes = pr_current_votes g,
                             t_redistributed_votes = pr_redistributed_votes g,
                             t_initial_votes = pr_initial_votes g,
                             t_diehard_votes = (case map_of diehard q of None \<Rightarrow> NaN | Some v \<Rightarrow> v)\<rparr>)"
  define fin :: "tally_row \<Rightarrow> tally_row" where "fin = (\<lambda>t.
      (if t_current_votes t = Num 0 then t\<lparr>t_current_votes := t_diehard_votes t\<rparr> else t)
        \<lparr>t_current_votes :=
           vadd (t_current_votes (if t_current_votes t = Num 0
                                  then t\<lparr>t_current_votes := t_diehard_votes t\<rparr> else t))
                (t_redistributed_votes t)\<rparr>)"
  define keys where "keys = sort (remdups (map pr_best_party (collapse data) @ map fst diehard))"
  have tally: "final_tally data diehard = map (\<lambda>q. fin (h q)) keys"
    by (simp add: final_tally_def merge_outer_def h_def fin_def keys_def comp_def)
  have p_parties: "p \<in> set (parties data)"
    using in_table by (simp add: parties_def)
  have "map current_votes (group data p) \<noteq> []"
    using p_parties group_nonempty by simp
  moreover have "\<forall>v \<in> set (map current_votes (group data p)). v = Num 0"
    using elim by (auto simp: eliminated_def group_def)
  ultimately have zero: "col_mean (map current_votes (group data p)) = Num 0"
    by (rule col_mean_all_zero)
  have "map_of diehard p = None"
    using no_diehard by (simp add: map_of_eq_None_iff)
  then have hp: "h p = \<lparr>t_best_party = p, t_current_votes = Num 0,
      t_redistributed_votes = col_mean (map redistributed_votes (group data p)),
      t_initial_votes = col_mean (map initial_votes (group data p)),
      t_diehard_votes = NaN\<rparr>"
    unfolding h_def collapse_def by (simp add: find_collapse [OF p_parties] zero)
  have party: "t_best_party (fin (h q)) = q" for q
    by (simp add: fin_def h_def split: option.splits)
  have finp: "t_current_votes (fin (h p)) = NaN \<and> t_diehard_votes (fin (h p)) = NaN"
    by (simp add: fin_def hp)
  have "p \<in> set keys"
    using p_parties by (simp add: keys_def collapse_def comp_def)
  then have "fin (h p) \<in> set (final_tally data diehard)"
    by (simp add: tally)
  with party have ex: "\<exists>t \<in> set (final_tally data diehard). t_best_party t = p"
    by blast
  have "t_current_votes t = NaN \<and> t_diehard_votes t = NaN"
    if "t \<in> set (final_tally data diehard)" and "t_best_party t = p" for t
  proof -
    from that(1) obtain q where "t = fin (h q)"
      by (auto simp: tally)
    with that(2) party have "t = fin (h p)"
      by simp
    with finp show ?thesis
      by simp
  qed
  with ex show ?thesis
    by blast
qed

text \<open>
  C10. A party that a round of the loop has eliminated (the loop printed it) and that has
  no diehard row in the input has no entry in the diehard votes. Whenever the simulation
  returns a tally, the tally has an entry for that party, its \<open>diehard_votes\<close> is missing
  and its final \<open>current_votes\<close> is NaN, whatever its \<open>redistributed_votes\<close>.
\<close>

theorem eliminated_party_without_diehards_gets_NaN:
  assumes "p \<in> fst ` set (snd (simulateRankBasedElection data))"
    and "\<forall>r \<in> set data. best_party r = p \<longrightarrow>
           next_best_party r \<noteq> ''inget parti'' \<and> next_best_party r \<noteq> ''vet ej/uppgift saknas''"
    and "fst (simulateRankBasedElection data) = Inr tally"
  shows "(\<exists>t \<in> set tally. t_best_party t = p)
         \<and> (\<forall>t \<in> set tally. t_best_party t = p \<longrightarrow>
               t_current_votes t = NaN \<and> t_diehard_votes t = NaN)"
proof -
  from assms(1) have pr: "p \<in> fst ` set (printed (while_loop data 1))"
    by (simp add: simulateRankBasedElection_def Let_def)
  from assms(3) obtain data' where out: "outcome (while_loop data 1) = Inr data'"
    and tally: "tally = final_tally data' (diehard_votes data)"
    by (auto simp: simulateRankBasedElection_def Let_def split: sum.splits)
  from pr out have elim: "eliminated p data' \<and> p \<in> best_party ` set data'"
    by (rule printed_party_eliminated)
  from assms(2) have "p \<notin> fst ` set (diehard_votes data)"
    using diehard_votes_keys [of p data] by blast
  with elim show ?thesis
    unfolding tally by (intro final_tally_eliminated) simp_all
qed

theorem eliminated_party_without_diehards_gets_NaN_witness:
  "''C'' \<in> fst ` set (snd (simulateRankBasedElection two_round_table))
   \<and> map next_best_party (group two_round_table ''C'') = [''A'', ''B'']
   \<and> fst (simulateRankBasedElection two_round_table) = Inr two_round_tally
   \<and> (\<exists>t \<in> set two_round_tally. t_best_party t = ''C'')
   \<and> \<not> (\<exists>t \<in> set two_round_tally.
            t_best_party t = ''C'' \<and> \<not> (t_current_votes t = NaN \<and> t_diehard_votes t = NaN))"
proof -
  have pr: "''C'' \<in> fst ` set (snd (simulateRankBasedElection two_round_table))"
    by code_simp
  have nb: "map next_best_party (group two_round_table ''C'') = [''A'', ''B'']"
    by code_simp
  have nd: "\<forall>r \<in> set two_round_table. best_party r = ''C'' \<longrightarrow>
      next_best_party r \<noteq> ''inget parti'' \<and> next_best_party r \<noteq> ''vet ej/uppgift saknas''"
    by (simp add: two_round_table_def mk_row_def)
  have res: "fst (simulateRankBasedElection two_round_table) = Inr two_round_tally"
    by code_simp
  from eliminated_party_without_diehards_gets_NaN [OF pr nd res] pr nb res show ?thesis
    by blast
qed

subsection \<open>The sum of the votes over one round\<close>





























end
